theory Spec2Isabelle
  imports Main "HOL-Library.Sublist"
begin

section \<open>Text and the string operations of the script\<close>

text \<open>
  The script \<^verbatim>\<open>comprehensive_fix.py\<close> reads one file into a Python \<^verbatim>\<open>str\<close>, edits it
  with \<^verbatim>\<open>in\<close>, \<^verbatim>\<open>str.replace\<close> and \<^verbatim>\<open>re.sub\<close>, and writes it back. A text is modelled
  as a \<^typ>\<open>string\<close>, one \<^typ>\<open>char\<close> per code point; the model covers the code points
  0 to 255. Exceptions are values of the type \<open>error\<close>.
\<close>

datatype error = IndexError | FileNotFoundError | PermissionError | UnicodeDecodeError

text \<open>\<^verbatim>\<open>sub in s\<close>: the text \<open>s\<close> has \<open>sub\<close> as a substring.\<close>

primrec contains :: "string \<Rightarrow> string \<Rightarrow> bool" where
  "contains [] sub = (sub = [])"
| "contains (c # cs) sub = (prefix sub (c # cs) \<or> contains cs sub)"

text \<open>
  \<^verbatim>\<open>s.replace(old, new)\<close> replaces every non-overlapping occurrence of \<open>old\<close>, scanning
  from the left. The counter of \<open>replace_scan\<close> is the number of characters of the
  occurrence just replaced that the scan still has to step over. For an empty \<open>old\<close>
  Python puts \<open>new\<close> in front of every character and at the end.
\<close>

primrec replace_scan :: "string \<Rightarrow> string \<Rightarrow> nat \<Rightarrow> string \<Rightarrow> string" where
  "replace_scan old new k [] = []"
| "replace_scan old new k (c # cs) =
     (case k of
        Suc j \<Rightarrow> replace_scan old new j cs
      | 0 \<Rightarrow> if prefix old (c # cs)
             then new @ replace_scan old new (length old - 1) cs
             else c # replace_scan old new 0 cs)"

definition str_replace :: "string \<Rightarrow> string \<Rightarrow> string \<Rightarrow> string" where
  "str_replace s old new =
     (if old = [] then new @ concat (map (\<lambda>c. c # new) s) else replace_scan old new 0 s)"

section \<open>The regular expressions of the script\<close>

text \<open>
  The character classes the patterns use. For a \<^verbatim>\<open>str\<close> pattern \<^verbatim>\<open>\s\<close> and \<^verbatim>\<open>\w\<close> are
  the Unicode classes; on the code points 0 to 255 they are the sets below.
  \<^verbatim>\<open>[^;]\<close> is any character but the semicolon, line breaks included.
\<close>

definition is_space :: "char \<Rightarrow> bool" where
  "is_space c = (of_char c \<in> set [9, 10, 11, 12, 13, 28, 29, 30, 31, 32, 133, 160 :: nat])"

definition is_word :: "char \<Rightarrow> bool" where
  "is_word c =
     (let n = (of_char c :: nat) in
        (48 \<le> n \<and> n \<le> 57) \<or> (65 \<le> n \<and> n \<le> 90) \<or> n = 95 \<or> (97 \<le> n \<and> n \<le> 122)
        \<or> n \<in> set [170, 178, 179, 181, 185, 186, 188, 189, 190]
        \<or> (192 \<le> n \<and> n \<le> 214) \<or> (216 \<le> n \<and> n \<le> 246) \<or> 248 \<le> n)"

datatype cclass = Space | Word | Not_chr char

primrec in_class :: "cclass \<Rightarrow> char \<Rightarrow> bool" where
  "in_class Space c = is_space c"
| "in_class Word c = is_word c"
| "in_class (Not_chr x) c = (c \<noteq> x)"

text \<open>
  The patterns are built from literal text, the greedy repetitions \<^verbatim>\<open>+\<close> and \<^verbatim>\<open>*\<close> of
  one character class, concatenation, alternation and capturing groups; no pattern of
  the script has an anchor, a look-around or a group inside an alternation.
\<close>

datatype regex =
    Lits string
  | Plus cclass
  | Star cclass
  | Seq regex regex
  | Alt regex regex
  | Grp regex

text \<open>
  \<open>run r s\<close> lists the ways \<open>r\<close> matches at the start of \<open>s\<close>, in the order in which
  the backtracking matcher of \<^verbatim>\<open>re\<close> tries them: a greedy repetition takes the longest
  run first and gives characters back one by one, an alternation tries its left branch
  first. Each way is the number of characters consumed and the texts of the groups, in
  the order of their opening parentheses.
\<close>

fun run :: "regex \<Rightarrow> string \<Rightarrow> (nat \<times> string list) list" where
  "run (Lits l) s = (if prefix l s then [(length l, [])] else [])"
| "run (Plus c) s = map (\<lambda>k. (k, [])) (rev [1 ..< Suc (length (takeWhile (in_class c) s))])"
| "run (Star c) s = map (\<lambda>k. (k, [])) (rev [0 ..< Suc (length (takeWhile (in_class c) s))])"
| "run (Seq a b) s =
     concat (map (\<lambda>(k, g). map (\<lambda>(k', g'). (k + k', g @ g')) (run b (drop k s))) (run a s))"
| "run (Alt a b) s = run a s @ run b s"
| "run (Grp r) s = map (\<lambda>(k, g). (k, take k s # g)) (run r s)"

record rmatch =
  whole :: string
  groups :: "string list"

text \<open>\<^verbatim>\<open>m.group(n)\<close>; a group number the pattern does not have raises IndexError.\<close>

fun group_of :: "rmatch \<Rightarrow> nat \<Rightarrow> error + string" where
  "group_of m 0 = Inr (whole m)"
| "group_of m (Suc n) = (if n < length (groups m) then Inr (groups m ! n) else Inl IndexError)"

text \<open>
  The first match at the start of \<open>s\<close>. With \<open>adv\<close> set the matcher refuses an empty
  match and backtracks, as \<^verbatim>\<open>re.sub\<close> asks of it right after an empty match.
\<close>

definition first_match :: "bool \<Rightarrow> regex \<Rightarrow> string \<Rightarrow> rmatch option" where
  "first_match adv r s =
     (case filter (\<lambda>(k, g). if adv then 0 < k else True) (run r s) of
        [] \<Rightarrow> None
      | (k, g) # _ \<Rightarrow> Some \<lparr>whole = take k s, groups = g\<rparr>)"

definition re_match :: "regex \<Rightarrow> string \<Rightarrow> rmatch option" where
  "re_match r s = first_match False r s"

text \<open>\<^verbatim>\<open>re.search(r, s)\<close>: the first match at the leftmost position that has one.\<close>

primrec re_search :: "regex \<Rightarrow> string \<Rightarrow> rmatch option" where
  "re_search r [] = re_match r []"
| "re_search r (c # cs) =
     (case re_match r (c # cs) of Some m \<Rightarrow> Some m | None \<Rightarrow> re_search r cs)"

text \<open>
  \<^verbatim>\<open>re.sub(r, f, s)\<close> with a function \<open>f\<close>: the scan goes through \<open>s\<close> once, from the
  left; at a position with a match it emits \<open>f\<close> of the match and goes on behind the
  match, otherwise it copies the character. The counter is the number of characters of
  the last match still to step over. Right after an empty match the matcher is asked once
  more, at the same position, for a match that is not empty, as Python does since 3.7.
  An exception raised by \<open>f\<close> ends the call.
\<close>

definition emit :: "error + string \<Rightarrow> error + string \<Rightarrow> error + string" where
  "emit a b =
     (case a of Inl e \<Rightarrow> Inl e
      | Inr x \<Rightarrow> (case b of Inl e \<Rightarrow> Inl e | Inr y \<Rightarrow> Inr (x @ y)))"

primrec sub_scan :: "regex \<Rightarrow> (rmatch \<Rightarrow> error + string) \<Rightarrow> nat \<Rightarrow> string \<Rightarrow> error + string" where
  "sub_scan r f k [] =
     (case re_match r [] of None \<Rightarrow> Inr [] | Some m \<Rightarrow> f m)"
| "sub_scan r f k (c # cs) =
     (case k of
        Suc j \<Rightarrow> sub_scan r f j cs
      | 0 \<Rightarrow>
         (case re_match r (c # cs) of
            None \<Rightarrow> emit (Inr [c]) (sub_scan r f 0 cs)
          | Some m \<Rightarrow>
              if whole m \<noteq> [] then emit (f m) (sub_scan r f (length (whole m) - 1) cs)
              else
                (case first_match True r (c # cs) of
                   None \<Rightarrow> emit (f m) (emit (Inr [c]) (sub_scan r f 0 cs))
                 | Some m' \<Rightarrow>
                     emit (f m) (emit (f m') (sub_scan r f (length (whole m') - 1) cs)))))"

definition re_sub :: "regex \<Rightarrow> (rmatch \<Rightarrow> error + string) \<Rightarrow> string \<Rightarrow> error + string" where
  "re_sub r f s = sub_scan r f 0 s"

section \<open>The script\<close>

subsection \<open>The UNUSED macro\<close>

text \<open>
  Lines 12 to 14 of the script: when the text has no \<^verbatim>\<open>#define UNUSED(x)\<close>, the include
  line of the test header is replaced, wherever it occurs, by itself followed by an empty
  line, a comment and the definition of the macro.
\<close>

definition macro_string :: string where
  "macro_string = ''#define UNUSED(x)''"

definition anchor :: string where
  "anchor = ''#include \"test_ember_internal.h\"''"

definition macro_block :: string where
  "macro_block =
     ''\<newline>\<newline>// Macro to mark variables as intentionally unused\<newline>#define UNUSED(x) ((void)(x))''"

definition ensure_marker_present :: "string \<Rightarrow> string" where
  "ensure_marker_present content =
     (if \<not> contains content macro_string
      then str_replace content anchor (anchor @ macro_block)
      else content)"

subsection \<open>The rewrite patterns\<close>

text \<open>
  Every pattern of the list is \<^verbatim>\<open>(\s+)(T\s+\w+\s*=\s*[^;]+;)\<close> for a type token \<open>T\<close>;
  \<open>decl_pattern T\<close> is that pattern, \<open>decl_body T\<close> the inside of its second group, and
  \<open>patterns\<close> lists the seven type tokens in the order of the script.
\<close>

definition decl_body :: "regex \<Rightarrow> regex" where
  "decl_body ty =
     Seq ty (Seq (Plus Space) (Seq (Plus Word) (Seq (Star Space) (Seq (Lits ''='')
       (Seq (Star Space) (Seq (Plus (Not_chr (CHR '';''))) (Lits '';'')))))))"

definition decl_pattern :: "regex \<Rightarrow> regex" where
  "decl_pattern ty = Seq (Grp (Plus Space)) (Grp (decl_body ty))"

definition ty_ember_value :: regex where
  "ty_ember_value = Lits ''ember_value''"

definition ty_const_char :: regex where
  "ty_const_char = Seq (Lits ''const'') (Seq (Plus Space) (Lits ''char*''))"

definition ty_ember_ptr :: regex where
  "ty_ember_ptr = Seq (Lits ''ember_'') (Seq (Plus Word) (Lits ''*''))"

definition ty_uint32 :: regex where
  "ty_uint32 = Lits ''uint32_t''"

definition ty_bool :: regex where
  "ty_bool = Lits ''bool''"

definition ty_package :: regex where
  "ty_package = Lits ''EmberPackage*''"

definition ty_int :: regex where
  "ty_int = Lits ''int''"

definition patterns :: "regex list" where
  "patterns =
     [decl_pattern ty_ember_value, decl_pattern ty_const_char, decl_pattern ty_ember_ptr,
      decl_pattern ty_uint32, decl_pattern ty_bool, decl_pattern ty_package, decl_pattern ty_int]"

text \<open>
  The pattern that finds the name of the variable:
  \<^verbatim>\<open>(?:ember_\w+\*|const\s+char\*|uint32_t|bool|EmberPackage\*|int|ember_value)\s+(\w+)\<close>.
\<close>

definition var_pattern :: regex where
  "var_pattern =
     Seq (Alt ty_ember_ptr (Alt ty_const_char (Alt ty_uint32 (Alt ty_bool
            (Alt ty_package (Alt ty_int ty_ember_value))))))
         (Seq (Plus Space) (Grp (Plus Word)))"

subsection \<open>The replacement and the loop over the patterns\<close>

definition replacement :: "rmatch \<Rightarrow> error + string" where
  "replacement m =
     (case group_of m 1 of Inl e \<Rightarrow> Inl e
      | Inr indent \<Rightarrow>
         (case group_of m 2 of Inl e \<Rightarrow> Inl e
          | Inr assignment \<Rightarrow>
             (case re_search var_pattern assignment of
                Some var_match \<Rightarrow>
                  (case group_of var_match 1 of Inl e \<Rightarrow> Inl e
                   | Inr var_name \<Rightarrow>
                       Inr (indent @ assignment @ ''\<newline>'' @ indent
                            @ ''UNUSED('' @ var_name @ '');''))
              | None \<Rightarrow> group_of m 0)))"

primrec apply_rules :: "regex list \<Rightarrow> string \<Rightarrow> error + string" where
  "apply_rules [] content = Inr content"
| "apply_rules (pattern # rest) content =
     (case re_sub pattern replacement content of
        Inl e \<Rightarrow> Inl e
      | Inr content' \<Rightarrow> apply_rules rest content')"

text \<open>The text that \<open>fix_all_unused_variables\<close> writes back for the text it has read.\<close>

definition fix_text :: "string \<Rightarrow> error + string" where
  "fix_text content = apply_rules patterns (ensure_marker_present content)"

subsection \<open>Files and the command line\<close>

text \<open>
  A file has its permissions and its text, which is the text that reading the file in text
  mode returns (the translation of line ends is outside the model); the text is \<open>None\<close>
  when the bytes of the file do not decode. The file system maps names to files. Every
  \<^verbatim>\<open>open\<close> is recorded, so that a run that touches no file is one with an empty record.
  A write replaces the whole text at once: a write that fails half way is outside the
  model.
\<close>

record file_entry =
  readable :: bool
  writable :: bool
  text_of :: "string option"

type_synonym fs = "string \<rightharpoonup> file_entry"

datatype fs_op = Open_read string | Open_write string

definition read_file :: "fs \<Rightarrow> string \<Rightarrow> error + string" where
  "read_file files filename =
     (case files filename of
        None \<Rightarrow> Inl FileNotFoundError
      | Some f \<Rightarrow>
          if \<not> readable f then Inl PermissionError
          else (case text_of f of None \<Rightarrow> Inl UnicodeDecodeError | Some t \<Rightarrow> Inr t))"

definition write_file :: "fs \<Rightarrow> string \<Rightarrow> string \<Rightarrow> error + fs" where
  "write_file files filename t =
     (case files filename of
        None \<Rightarrow> Inr (files(filename \<mapsto> \<lparr>readable = True, writable = True, text_of = Some t\<rparr>))
      | Some f \<Rightarrow>
          if \<not> writable f then Inl PermissionError
          else Inr (files(filename \<mapsto> f\<lparr>text_of := Some t\<rparr>)))"

record outcome =
  raised :: "error option"
  files_after :: fs
  opened :: "fs_op list"

definition fix_all_unused_variables :: "fs \<Rightarrow> string \<Rightarrow> outcome" where
  "fix_all_unused_variables files filename =
     (case read_file files filename of
        Inl e \<Rightarrow> \<lparr>raised = Some e, files_after = files, opened = [Open_read filename]\<rparr>
      | Inr content \<Rightarrow>
         (case fix_text content of
            Inl e \<Rightarrow> \<lparr>raised = Some e, files_after = files, opened = [Open_read filename]\<rparr>
          | Inr content' \<Rightarrow>
             (case write_file files filename content' of
                Inl e \<Rightarrow> \<lparr>raised = Some e, files_after = files,
                           opened = [Open_read filename, Open_write filename]\<rparr>
              | Inr files' \<Rightarrow> \<lparr>raised = None, files_after = files',
                               opened = [Open_read filename, Open_write filename]\<rparr>)))"

text \<open>
  The main block: \<open>argv\<close> is \<^verbatim>\<open>sys.argv\<close>, the name of the script included. An exception
  that nothing catches ends the process with status 1 and a trace on standard error.
\<close>

record process =
  status :: nat
  stdout :: "string list"
  uncaught :: "error option"
  files_left :: fs
  files_opened :: "fs_op list"

definition usage :: string where
  "usage = ''Usage: python3 comprehensive_fix.py <filename>''"

definition main :: "string list \<Rightarrow> fs \<Rightarrow> process" where
  "main argv files =
     (if length argv \<noteq> 2
      then \<lparr>status = 1, stdout = [usage], uncaught = None, files_left = files,
            files_opened = []\<rparr>
      else
        (let r = fix_all_unused_variables files (argv ! 1) in
           case raised r of
             Some e \<Rightarrow> \<lparr>status = 1, stdout = [], uncaught = Some e,
                         files_left = files_after r, files_opened = opened r\<rparr>
           | None \<Rightarrow> \<lparr>status = 0, stdout = [''Fixed unused variables in '' @ argv ! 1],
                       uncaught = None, files_left = files_after r,
                       files_opened = opened r\<rparr>))"

section \<open>The words of a pattern\<close>

text \<open>
  For the proofs: the set of the texts that a pattern can match, without regard to the
  order in which the matcher tries them, and the patterns that have no capturing group.
\<close>

fun lang :: "regex \<Rightarrow> string set" where
  "lang (Lits l) = {l}"
| "lang (Plus c) = {w. w \<noteq> [] \<and> list_all (in_class c) w}"
| "lang (Star c) = {w. list_all (in_class c) w}"
| "lang (Seq a b) = {u @ v | u v. u \<in> lang a \<and> v \<in> lang b}"
| "lang (Alt a b) = lang a \<union> lang b"
| "lang (Grp r) = lang r"

fun group_free :: "regex \<Rightarrow> bool" where
  "group_free (Seq a b) = (group_free a \<and> group_free b)"
| "group_free (Alt a b) = (group_free a \<and> group_free b)"
| "group_free (Grp r) = False"
| "group_free r = True"

section \<open>Properties of the string operations\<close>

lemma contains_iff: "contains s sub \<longleftrightarrow> (\<exists>pre post. s = pre @ sub @ post)"
proof (induction s)
  case Nil
  then show ?case by auto
next
  case (Cons c cs)
  show ?case
  proof
    assume "contains (c # cs) sub"
    then consider "prefix sub (c # cs)" | "contains cs sub" by auto
    then show "\<exists>pre post. c # cs = pre @ sub @ post"
    proof cases
      case 1
      then obtain post where "c # cs = sub @ post" by (auto simp: prefix_def)
      then have "c # cs = [] @ sub @ post" by simp
      then show ?thesis by blast
    next
      case 2
      then obtain pre post where "cs = pre @ sub @ post" using Cons.IH by blast
      then have "c # cs = (c # pre) @ sub @ post" by simp
      then show ?thesis by blast
    qed
  next
    assume "\<exists>pre post. c # cs = pre @ sub @ post"
    then obtain pre post where e: "c # cs = pre @ sub @ post" by blast
    show "contains (c # cs) sub"
    proof (cases pre)
      case Nil
      then have "prefix sub (c # cs)" using e by (simp add: prefix_def)
      then show ?thesis by simp
    next
      case (Cons a pre')
      then have "cs = pre' @ sub @ post" using e by simp
      then show ?thesis using Cons.IH by auto
    qed
  qed
qed

lemma replace_scan_absent:
  "\<not> contains s old \<Longrightarrow> replace_scan old new 0 s = s"
  by (induction s) auto

lemma replace_scan_skip:
  "k \<le> length s \<Longrightarrow> replace_scan old new k s = replace_scan old new 0 (drop k s)"
proof (induction s arbitrary: k)
  case Nil
  then show ?case by simp
next
  case (Cons c cs)
  then show ?case by (cases k) auto
qed

lemma replace_scan_first:
  assumes "old \<noteq> []"
    and "\<forall>i<length pre. \<not> prefix old (drop i (pre @ old @ rest))"
  shows "replace_scan old new 0 (pre @ old @ rest) = pre @ new @ replace_scan old new 0 rest"
  using assms(2)
proof (induction pre)
  case Nil
  obtain c cs where o: "old = c # cs" using assms(1) by (cases old) auto
  have "replace_scan old new 0 (old @ rest) = new @ replace_scan old new (length cs) (cs @ rest)"
    by (simp add: o)
  also have "replace_scan old new (length cs) (cs @ rest) = replace_scan old new 0 rest"
    using replace_scan_skip[of "length cs" "cs @ rest" old new] by simp
  finally show ?case by simp
next
  case (Cons a pre)
  have np: "\<not> prefix old (a # pre @ old @ rest)"
    using Cons.prems[rule_format, of 0] by simp
  have "\<forall>i<length pre. \<not> prefix old (drop i (pre @ old @ rest))"
  proof (intro allI impI)
    fix i assume "i < length pre"
    then have "Suc i < length (a # pre)" by simp
    then have "\<not> prefix old (drop (Suc i) ((a # pre) @ old @ rest))" using Cons.prems by blast
    then show "\<not> prefix old (drop i (pre @ old @ rest))" by simp
  qed
  then have "replace_scan old new 0 (pre @ old @ rest) = pre @ new @ replace_scan old new 0 rest"
    by (rule Cons.IH)
  then show ?case using np by simp
qed

lemma anchor_hash: "CHR ''#'' \<notin> set (tl anchor)" "hd anchor = CHR ''#''" "length anchor = 32"
  by (simp_all add: anchor_def)

lemma anchor_no_overlap:
  assumes "\<not> contains pre anchor" "i < length pre"
  shows "\<not> prefix anchor (drop i (pre @ anchor @ rest))"
proof
  assume p: "prefix anchor (drop i (pre @ anchor @ rest))"
  define u where "u = drop i pre"
  have u: "u \<noteq> []" "pre = take i pre @ u" using assms(2) by (auto simp: u_def)
  have p': "prefix anchor (u @ anchor @ rest)" using p assms(2) by (simp add: u_def)
  show False
  proof (cases "length anchor \<le> length u")
    case True
    then have "prefix anchor u" using p' by (metis prefix_length_prefix prefixI)
    then obtain z where "u = anchor @ z" by (auto simp: prefix_def)
    then have "pre = take i pre @ anchor @ z" using u(2) by simp
    then show False using assms(1) contains_iff by blast
  next
    case False
    then have l: "length u < length anchor" by simp
    from p' obtain z where z: "u @ anchor @ rest = anchor @ z" by (auto simp: prefix_def)
    have "(u @ anchor @ rest) ! length u = hd anchor"
      by (simp add: nth_append hd_conv_nth anchor_def)
    moreover have "(anchor @ z) ! length u = anchor ! length u" using l by (simp add: nth_append)
    ultimately have "anchor ! length u = CHR ''#''" using z anchor_hash(2) by simp
    moreover have "anchor ! length u \<in> set (tl anchor)"
      using l u(1) by (metis length_greater_0_conv nth_tl nth_mem Suc_pred length_tl less_diff_conv Suc_eq_plus1 One_nat_def)
    ultimately show False using anchor_hash(1) by simp
  qed
qed

lemma anchor_nonempty: "anchor \<noteq> []"
  by (simp add: anchor_def)

lemma first_anchor:
  "contains t anchor \<Longrightarrow> \<exists>pre rest. t = pre @ anchor @ rest \<and> \<not> contains pre anchor"
proof (induction t)
  case Nil
  then show ?case by (simp add: anchor_nonempty)
next
  case (Cons c cs)
  show ?case
  proof (cases "prefix anchor (c # cs)")
    case True
    then obtain rest where "c # cs = [] @ anchor @ rest" by (auto simp: prefix_def)
    moreover have "\<not> contains [] anchor" by (simp add: anchor_nonempty)
    ultimately show ?thesis by blast
  next
    case False
    then have "contains cs anchor" using Cons.prems by simp
    then obtain pre rest where d: "cs = pre @ anchor @ rest" "\<not> contains pre anchor"
      using Cons.IH by blast
    have "\<not> prefix anchor (c # pre)"
    proof
      assume "prefix anchor (c # pre)"
      moreover have "prefix (c # pre) (c # cs)" using d(1) by simp
      ultimately have "prefix anchor (c # cs)" by (rule prefix_order.trans)
      then show False using False by simp
    qed
    then have "\<not> contains (c # pre) anchor" using d(2) by simp
    moreover have "c # cs = (c # pre) @ anchor @ rest" using d(1) by simp
    ultimately show ?thesis by blast
  qed
qed

lemma replace_anchor_first:
  assumes "\<not> contains pre anchor"
  shows "replace_scan anchor new 0 (pre @ anchor @ rest) = pre @ new @ replace_scan anchor new 0 rest"
  using anchor_nonempty anchor_no_overlap[OF assms] by (intro replace_scan_first) auto

lemma macro_block_split:
  "macro_block = ''\<newline>\<newline>// Macro to mark variables as intentionally unused\<newline>'' @ macro_string @ '' ((void)(x))''"
  by (simp add: macro_block_def macro_string_def)

lemma marker_after_insertion:
  assumes "contains t anchor"
  shows "contains (replace_scan anchor (anchor @ macro_block) 0 t) macro_string"
proof -
  obtain pre rest where d: "t = pre @ anchor @ rest" "\<not> contains pre anchor"
    using first_anchor[OF assms] by blast
  define tl' where "tl' = replace_scan anchor (anchor @ macro_block) 0 rest"
  have "replace_scan anchor (anchor @ macro_block) 0 t = pre @ (anchor @ macro_block) @ tl'"
    unfolding d(1) tl'_def by (rule replace_anchor_first[OF d(2)])
  also have "\<dots> = (pre @ anchor @ ''\<newline>\<newline>// Macro to mark variables as intentionally unused\<newline>'')
       @ macro_string @ ('' ((void)(x))'' @ tl')"
    by (simp only: macro_block_split append_assoc)
  finally show ?thesis unfolding contains_iff by blast
qed

section \<open>Properties of the matcher\<close>

lemma take_takeWhile:
  "k \<le> length (takeWhile P s) \<Longrightarrow> take k s = take k (takeWhile P s)"
proof (induction s arbitrary: k)
  case Nil
  then show ?case by simp
next
  case (Cons a s)
  then show ?case by (cases k) (auto split: if_splits)
qed

lemma run_sound:
  "(k, g) \<in> set (run r s) \<Longrightarrow> k \<le> length s \<and> take k s \<in> lang r"
proof (induction r arbitrary: s k g)
  case (Lits l)
  then have p: "prefix l s" and k: "k = length l" by (auto split: if_splits)
  from p obtain z where "s = l @ z" by (auto simp: prefix_def)
  then show ?case using k by simp
next
  case (Plus c)
  define n where "n = length (takeWhile (in_class c) s)"
  from Plus have k: "1 \<le> k" "k \<le> n" by (auto simp: n_def)
  have n: "n \<le> length s" unfolding n_def by (rule length_takeWhile_le)
  have t: "take k s = take k (takeWhile (in_class c) s)"
    using k(2) unfolding n_def by (rule take_takeWhile)
  have "\<forall>x\<in>set (take k s). in_class c x"
    unfolding t using set_takeWhileD in_set_takeD by metis
  moreover have "take k s \<noteq> []" using k n by auto
  ultimately show ?case using k n by (simp add: list_all_iff)
next
  case (Star c)
  define n where "n = length (takeWhile (in_class c) s)"
  from Star have k: "k \<le> n" by (auto simp: n_def)
  have n: "n \<le> length s" unfolding n_def by (rule length_takeWhile_le)
  have t: "take k s = take k (takeWhile (in_class c) s)"
    using k unfolding n_def by (rule take_takeWhile)
  have "\<forall>x\<in>set (take k s). in_class c x"
    unfolding t using set_takeWhileD in_set_takeD by metis
  then show ?case using k n by (simp add: list_all_iff)
next
  case (Seq a b)
  from Seq.prems obtain k1 g1 k2 g2 where
    a: "(k1, g1) \<in> set (run a s)" and b: "(k2, g2) \<in> set (run b (drop k1 s))"
    and k: "k = k1 + k2" by auto
  from Seq.IH(1)[OF a] have a': "k1 \<le> length s" "take k1 s \<in> lang a" by auto
  from Seq.IH(2)[OF b] have b': "k2 \<le> length s - k1" "take k2 (drop k1 s) \<in> lang b" by auto
  have "take k s = take k1 s @ take k2 (drop k1 s)" unfolding k by (rule take_add)
  then show ?case using a' b' k by auto
next
  case (Alt a b)
  then show ?case by auto
next
  case (Grp r)
  then show ?case by auto
qed

lemma takeWhile_all_prefix:
  "list_all P w \<Longrightarrow> length w \<le> length (takeWhile P (w @ t))"
  by (induction w) auto

lemma run_complete:
  "w \<in> lang r \<Longrightarrow> \<exists>g. (length w, g) \<in> set (run r (w @ t))"
proof (induction r arbitrary: w t)
  case (Lits l)
  then show ?case by simp
next
  case (Plus c)
  then have "w \<noteq> []" "list_all (in_class c) w" by auto
  then have "1 \<le> length w" "length w \<le> length (takeWhile (in_class c) (w @ t))"
    using takeWhile_all_prefix by (auto simp: Suc_le_eq)
  then show ?case by (auto simp: image_iff)
next
  case (Star c)
  then have "list_all (in_class c) w" by auto
  then have "length w \<le> length (takeWhile (in_class c) (w @ t))"
    using takeWhile_all_prefix by auto
  then show ?case by (auto simp: image_iff)
next
  case (Seq a b)
  then obtain u v where w: "w = u @ v" "u \<in> lang a" "v \<in> lang b" by auto
  from Seq.IH(1)[OF w(2), of "v @ t"] obtain g1 where
    a: "(length u, g1) \<in> set (run a (u @ v @ t))" by blast
  from Seq.IH(2)[OF w(3), of t] obtain g2 where
    b: "(length v, g2) \<in> set (run b (v @ t))" by blast
  have "(length u + length v, g1 @ g2) \<in> set (run (Seq a b) (u @ v @ t))"
    using a b by force
  then have "(length w, g1 @ g2) \<in> set (run (Seq a b) (w @ t))"
    unfolding w(1) by simp
  then show ?case by blast
next
  case (Alt a b)
  then consider "w \<in> lang a" | "w \<in> lang b" by auto
  then show ?case
  proof cases
    case 1
    from Alt.IH(1)[OF 1, of t] show ?thesis by auto
  next
    case 2
    from Alt.IH(2)[OF 2, of t] show ?thesis by auto
  qed
next
  case (Grp r)
  then obtain g where "(length w, g) \<in> set (run r (w @ t))" by auto
  then show ?case by force
qed

lemma run_group_free:
  "group_free r \<Longrightarrow> (k, g) \<in> set (run r s) \<Longrightarrow> g = []"
  by (induction r arbitrary: s k g) (auto split: if_splits)

lemma first_match_Some:
  "first_match adv r s = Some m \<Longrightarrow>
     \<exists>k g. (k, g) \<in> set (run r s) \<and> m = \<lparr>whole = take k s, groups = g\<rparr>"
proof -
  assume a: "first_match adv r s = Some m"
  define fs where "fs = filter (\<lambda>(k, g). if adv then 0 < k else True) (run r s)"
  from a obtain k g rest where f: "fs = (k, g) # rest" and m: "m = \<lparr>whole = take k s, groups = g\<rparr>"
    by (auto simp: first_match_def fs_def split: list.splits)
  have "(k, g) \<in> set fs" using f by simp
  then have "(k, g) \<in> set (run r s)" unfolding fs_def by simp
  then show ?thesis using m by blast
qed

lemma re_match_Some:
  "re_match r s = Some m \<Longrightarrow>
     \<exists>k g. (k, g) \<in> set (run r s) \<and> m = \<lparr>whole = take k s, groups = g\<rparr>"
  unfolding re_match_def by (rule first_match_Some)

lemma re_match_None: "re_match r s = None \<longleftrightarrow> run r s = []"
  by (auto simp: re_match_def first_match_def split: list.splits)

lemma re_search_at_start: "re_match r s = Some m \<Longrightarrow> re_search r s = Some m"
  by (cases s) auto

lemma run_Seq_mem:
  "(k, g) \<in> set (run (Seq a b) s) \<longleftrightarrow>
     (\<exists>k1 g1 k2 g2. (k1, g1) \<in> set (run a s) \<and> (k2, g2) \<in> set (run b (drop k1 s))
        \<and> k = k1 + k2 \<and> g = g1 @ g2)"
  by force

lemma run_Grp_mem:
  "(k, g) \<in> set (run (Grp r) s) \<longleftrightarrow> (\<exists>g'. (k, g') \<in> set (run r s) \<and> g = take k s # g')"
  by force

lemma replacement_eq:
  assumes "groups m = [i, a]" and "re_search var_pattern a = Some vm" and "groups vm = [v]"
  shows "replacement m = Inr (i @ a @ ''\<newline>'' @ i @ ''UNUSED('' @ v @ '');'')"
  using assms by (simp add: replacement_def numeral_2_eq_2)

lemma patterns_decl:
  "p \<in> set patterns \<Longrightarrow>
     \<exists>ty. p = decl_pattern ty \<and>
       ty \<in> set [ty_ember_value, ty_const_char, ty_ember_ptr, ty_uint32, ty_bool, ty_package, ty_int]"
  by (auto simp: patterns_def)

lemma type_token_group_free:
  "ty \<in> set [ty_ember_value, ty_const_char, ty_ember_ptr, ty_uint32, ty_bool, ty_package, ty_int]
     \<Longrightarrow> group_free ty"
  by (auto simp: ty_ember_value_def ty_const_char_def ty_ember_ptr_def ty_uint32_def ty_bool_def
      ty_package_def ty_int_def)

lemma type_token_in_var_pattern:
  assumes "ty \<in> set [ty_ember_value, ty_const_char, ty_ember_ptr, ty_uint32, ty_bool, ty_package, ty_int]"
    and "t \<in> lang ty" and "sp \<in> lang (Plus Space)" and "wd \<in> lang (Plus Word)"
  shows "t @ sp @ wd \<in> lang var_pattern"
proof -
  have "t \<in> lang (Alt ty_ember_ptr (Alt ty_const_char (Alt ty_uint32 (Alt ty_bool
            (Alt ty_package (Alt ty_int ty_ember_value))))))"
    using assms(1,2) by auto
  moreover have "sp @ wd \<in> lang (Seq (Plus Space) (Grp (Plus Word)))"
    using assms(3,4) by (simp del: lang.simps(2)) blast
  ultimately show ?thesis
    unfolding var_pattern_def lang.simps(4) by blast
qed

lemma group_free_decl_body: "group_free ty \<Longrightarrow> group_free (decl_body ty)"
  by (simp add: decl_body_def)

lemma decl_match_shape:
  assumes "(k, g) \<in> set (run (decl_pattern ty) s)" and "group_free ty"
  shows "\<exists>i a. g = [i, a] \<and> take k s = i @ a \<and> i \<in> lang (Plus Space) \<and> a \<in> lang (decl_body ty)"
proof -
  from assms(1) obtain k1 g1 k2 g2 where
    a: "(k1, g1) \<in> set (run (Grp (Plus Space)) s)"
    and b: "(k2, g2) \<in> set (run (Grp (decl_body ty)) (drop k1 s))"
    and k: "k = k1 + k2" and g: "g = g1 @ g2"
    unfolding decl_pattern_def run_Seq_mem by blast
  from a obtain g1' where a': "(k1, g1') \<in> set (run (Plus Space) s)" "g1 = take k1 s # g1'"
    unfolding run_Grp_mem by blast
  from b obtain g2' where b': "(k2, g2') \<in> set (run (decl_body ty) (drop k1 s))"
    "g2 = take k2 (drop k1 s) # g2'"
    unfolding run_Grp_mem by blast
  have "g1' = []" using a'(1) run_group_free[of "Plus Space"] by (simp del: run.simps)
  moreover have "g2' = []" using b'(1) run_group_free[OF group_free_decl_body[OF assms(2)]] by blast
  ultimately have "g = [take k1 s, take k2 (drop k1 s)]" using g a'(2) b'(2) by simp
  moreover have "take k s = take k1 s @ take k2 (drop k1 s)" unfolding k by (rule take_add)
  moreover have "take k1 s \<in> lang (Plus Space)" using run_sound[OF a'(1)] by blast
  moreover have "take k2 (drop k1 s) \<in> lang (decl_body ty)" using run_sound[OF b'(1)] by blast
  ultimately show ?thesis by blast
qed

lemma var_pattern_groups:
  assumes "(k, g) \<in> set (run var_pattern s)"
  shows "\<exists>v. g = [v] \<and> v \<in> lang (Plus Word)"
proof -
  define alts where "alts = Alt ty_ember_ptr (Alt ty_const_char (Alt ty_uint32 (Alt ty_bool
            (Alt ty_package (Alt ty_int ty_ember_value)))))"
  have gf: "group_free alts"
    by (simp add: alts_def ty_ember_value_def ty_const_char_def ty_ember_ptr_def ty_uint32_def
        ty_bool_def ty_package_def ty_int_def)
  have vp: "var_pattern = Seq alts (Seq (Plus Space) (Grp (Plus Word)))"
    by (simp add: var_pattern_def alts_def)
  from assms obtain k1 g1 k2 g2 where
    a: "(k1, g1) \<in> set (run alts s)"
    and b: "(k2, g2) \<in> set (run (Seq (Plus Space) (Grp (Plus Word))) (drop k1 s))"
    and g: "g = g1 @ g2"
    unfolding vp run_Seq_mem[of _ _ alts] by blast
  from b obtain k3 g3 k4 g4 where
    c: "(k3, g3) \<in> set (run (Plus Space) (drop k1 s))"
    and d: "(k4, g4) \<in> set (run (Grp (Plus Word)) (drop k3 (drop k1 s)))"
    and g2: "g2 = g3 @ g4"
    unfolding run_Seq_mem by blast
  from d obtain g5 where e: "(k4, g5) \<in> set (run (Plus Word) (drop k3 (drop k1 s)))"
    "g4 = take k4 (drop k3 (drop k1 s)) # g5"
    unfolding run_Grp_mem by blast
  have "g1 = []" using a gf run_group_free by blast
  moreover have "g3 = []" using c run_group_free[of "Plus Space"] by (simp del: run.simps)
  moreover have "g5 = []" using e(1) run_group_free[of "Plus Word"] by (simp del: run.simps)
  ultimately have "g = [take k4 (drop k3 (drop k1 s))]" using g g2 e(2) by simp
  moreover have "take k4 (drop k3 (drop k1 s)) \<in> lang (Plus Word)" using run_sound[OF e(1)] by blast
  ultimately show ?thesis by blast
qed

lemma var_search:
  assumes "ty \<in> set [ty_ember_value, ty_const_char, ty_ember_ptr, ty_uint32, ty_bool, ty_package, ty_int]"
    and "a \<in> lang (decl_body ty)"
  shows "\<exists>vm v. re_search var_pattern a = Some vm \<and> groups vm = [v] \<and> v \<in> lang (Plus Word)"
proof -
  from assms(2) obtain t r1 where 1: "a = t @ r1" "t \<in> lang ty"
    "r1 \<in> lang (Seq (Plus Space) (Seq (Plus Word) (Seq (Star Space) (Seq (Lits ''='')
       (Seq (Star Space) (Seq (Plus (Not_chr (CHR '';''))) (Lits '';'')))))))"
    unfolding decl_body_def lang.simps(4)[of ty] by blast
  from 1(3) obtain sp r2 where 2: "r1 = sp @ r2" "sp \<in> lang (Plus Space)"
    "r2 \<in> lang (Seq (Plus Word) (Seq (Star Space) (Seq (Lits ''='')
       (Seq (Star Space) (Seq (Plus (Not_chr (CHR '';''))) (Lits '';''))))))"
    unfolding lang.simps(4)[of "Plus Space"] by blast
  from 2(3) obtain wd r3 where 3: "r2 = wd @ r3" "wd \<in> lang (Plus Word)"
    unfolding lang.simps(4)[of "Plus Word"] by blast
  have "t @ sp @ wd \<in> lang var_pattern"
    by (rule type_token_in_var_pattern[OF assms(1) 1(2) 2(2) 3(2)])
  from run_complete[OF this, of r3] obtain g where
    "(length (t @ sp @ wd), g) \<in> set (run var_pattern ((t @ sp @ wd) @ r3))" by blast
  moreover have "(t @ sp @ wd) @ r3 = a" using 1(1) 2(1) 3(1) by simp
  ultimately have "run var_pattern a \<noteq> []" by auto
  then obtain vm where vm: "re_match var_pattern a = Some vm"
    using re_match_None[of var_pattern a] by (cases "re_match var_pattern a") auto
  from re_match_Some[OF vm] obtain k' g' where
    "(k', g') \<in> set (run var_pattern a)" "vm = \<lparr>whole = take k' a, groups = g'\<rparr>" by blast
  then obtain v where "groups vm = [v]" "v \<in> lang (Plus Word)"
    using var_pattern_groups by fastforce
  then show ?thesis using re_search_at_start[OF vm] by blast
qed

lemma replacement_on_match:
  assumes "p \<in> set patterns" and "re_match p s = Some m"
  shows "\<exists>i a vm v. whole m = i @ a \<and> groups m = [i, a] \<and> i \<in> lang (Plus Space)
           \<and> re_search var_pattern a = Some vm \<and> groups vm = [v] \<and> v \<in> lang (Plus Word)
           \<and> replacement m = Inr (i @ a @ ''\<newline>'' @ i @ ''UNUSED('' @ v @ '');'')"
proof -
  from patterns_decl[OF assms(1)] obtain ty where p: "p = decl_pattern ty"
    and ty: "ty \<in> set [ty_ember_value, ty_const_char, ty_ember_ptr, ty_uint32, ty_bool, ty_package, ty_int]"
    by blast
  from re_match_Some[OF assms(2)] obtain k g where
    r: "(k, g) \<in> set (run (decl_pattern ty) s)" and m: "m = \<lparr>whole = take k s, groups = g\<rparr>"
    unfolding p by blast
  from decl_match_shape[OF r type_token_group_free[OF ty]] obtain i a where
    s: "g = [i, a]" "take k s = i @ a" "i \<in> lang (Plus Space)" "a \<in> lang (decl_body ty)" by blast
  from var_search[OF ty s(4)] obtain vm v where
    v: "re_search var_pattern a = Some vm" "groups vm = [v]" "v \<in> lang (Plus Word)" by blast
  have "groups m = [i, a]" using m s(1) by simp
  from replacement_eq[OF this v(1) v(2)]
  have "replacement m = Inr (i @ a @ ''\<newline>'' @ i @ ''UNUSED('' @ v @ '');'')" .
  then show ?thesis using m s v by auto
qed

section \<open>Properties of the scan\<close>

lemma emit_simps:
  "emit (Inr []) b = b"
  "emit (Inr x) (Inr y) = Inr (x @ y)"
  "emit (Inr x) (emit (Inr y) b) = emit (Inr (x @ y)) b"
  by (auto simp: emit_def split: sum.splits)

lemma re_match_prefix:
  assumes "re_match r s = Some m"
  shows "s = whole m @ drop (length (whole m)) s"
proof -
  from re_match_Some[OF assms] obtain k g where
    r: "(k, g) \<in> set (run r s)" and m: "m = \<lparr>whole = take k s, groups = g\<rparr>" by blast
  have "k \<le> length s" using run_sound[OF r] by blast
  then show ?thesis using m by (simp add: min_def)
qed

lemma pattern_match_nonempty:
  assumes "p \<in> set patterns" and "re_match p s = Some m"
  shows "whole m \<noteq> []"
proof -
  from replacement_on_match[OF assms] obtain i a where
    "whole m = i @ a" "i \<in> lang (Plus Space)" by blast
  then show ?thesis by simp
qed

lemma sub_scan_skip:
  "k \<le> length s \<Longrightarrow> sub_scan r f k s = sub_scan r f 0 (drop k s)"
proof (induction s arbitrary: k)
  case Nil
  then show ?case by simp
next
  case (Cons c cs)
  show ?case
  proof (cases k)
    case 0
    then show ?thesis by simp
  next
    case (Suc j)
    then have "j \<le> length cs" using Cons.prems by simp
    from Cons.IH[OF this] show ?thesis using Suc by simp
  qed
qed

lemma sub_scan_match:
  assumes "re_match r (w @ rest) = Some m" and "whole m = w" and "w \<noteq> []"
  shows "sub_scan r f 0 (w @ rest) = emit (f m) (sub_scan r f 0 rest)"
proof -
  obtain c w' where w: "w = c # w'" using assms(3) by (cases w) auto
  have "sub_scan r f 0 (w @ rest) = emit (f m) (sub_scan r f (length w') (w' @ rest))"
    using assms(1,2) unfolding w by simp
  also have "sub_scan r f (length w') (w' @ rest) = sub_scan r f 0 rest"
    using sub_scan_skip[of "length w'" "w' @ rest" r f] by simp
  finally show ?thesis .
qed

lemma sub_scan_no_match:
  "\<forall>i<length pre. re_match r (drop i (pre @ s)) = None \<Longrightarrow>
     sub_scan r f 0 (pre @ s) = emit (Inr pre) (sub_scan r f 0 s)"
proof (induction pre)
  case Nil
  then show ?case by (simp add: emit_simps)
next
  case (Cons a pre)
  have n: "re_match r (a # pre @ s) = None" using Cons.prems[rule_format, of 0] by simp
  have "\<forall>i<length pre. re_match r (drop i (pre @ s)) = None"
  proof (intro allI impI)
    fix i assume "i < length pre"
    then have "re_match r (drop (Suc i) ((a # pre) @ s)) = None"
      using Cons.prems[rule_format, of "Suc i"] by simp
    then show "re_match r (drop i (pre @ s)) = None" by simp
  qed
  from Cons.IH[OF this] have "sub_scan r f 0 (pre @ s) = emit (Inr pre) (sub_scan r f 0 s)" .
  then show ?case using n by (simp add: emit_simps)
qed

lemma re_sub_no_match:
  "re_search r s = None \<Longrightarrow> re_sub r f s = Inr s"
  unfolding re_sub_def
proof (induction s)
  case Nil
  then show ?case by simp
next
  case (Cons c cs)
  then have "re_match r (c # cs) = None" "re_search r cs = None"
    by (auto split: option.splits)
  then show ?case using Cons.IH by (simp add: emit_simps)
qed

lemma re_sub_grows:
  assumes "p \<in> set patterns"
  shows "\<exists>out. re_sub p replacement t = Inr out \<and> length t \<le> length out
           \<and> (re_search p t \<noteq> None \<longrightarrow> length t < length out)"
  unfolding re_sub_def
proof (induction t rule: length_induct)
  case (1 t)
  show ?case
  proof (cases "re_match p t")
    case None
    show ?thesis
    proof (cases t)
      case Nil
      then show ?thesis using None by simp
    next
      case (Cons c cs)
      from 1[rule_format, of cs] Cons obtain out where
        o: "sub_scan p replacement 0 cs = Inr out" "length cs \<le> length out"
        "re_search p cs \<noteq> None \<longrightarrow> length cs < length out" by auto
      have "sub_scan p replacement 0 t = Inr (c # out)"
        using None o(1) unfolding Cons by (simp add: emit_simps)
      moreover have "re_search p t = re_search p cs" using None unfolding Cons by simp
      ultimately show ?thesis using o(2,3) Cons by auto
    qed
  next
    case (Some m)
    define w where "w = whole m"
    define rest where "rest = drop (length w) t"
    have t: "t = w @ rest" unfolding w_def rest_def by (rule re_match_prefix[OF Some])
    have w: "w \<noteq> []" unfolding w_def by (rule pattern_match_nonempty[OF assms Some])
    from replacement_on_match[OF assms Some] obtain i a v where
      r: "whole m = i @ a" "replacement m = Inr (i @ a @ ''\<newline>'' @ i @ ''UNUSED('' @ v @ '');'')"
      by blast
    have lt: "length t = length w + length rest" by (subst t) simp
    have lw: "length w = length i + length a" unfolding w_def r(1) by simp
    have "length rest < length t" using lt w by simp
    from 1[rule_format, OF this] obtain out where
      o: "sub_scan p replacement 0 rest = Inr out" "length rest \<le> length out" by auto
    have S: "re_match p (w @ rest) = Some m" by (simp only: t[symmetric] Some)
    have "sub_scan p replacement 0 (w @ rest) = emit (replacement m) (sub_scan p replacement 0 rest)"
      by (rule sub_scan_match[OF S w_def[symmetric] w])
    then have "sub_scan p replacement 0 t = emit (replacement m) (sub_scan p replacement 0 rest)"
      by (simp only: t[symmetric])
    then have "sub_scan p replacement 0 t
        = Inr ((i @ a @ ''\<newline>'' @ i @ ''UNUSED('' @ v @ '');'') @ out)"
      unfolding r(2) o(1) by (simp only: emit_simps)
    moreover have "length t < length ((i @ a @ ''\<newline>'' @ i @ ''UNUSED('' @ v @ '');'') @ out)"
      using lt lw o(2) by simp
    ultimately show ?thesis by auto
  qed
qed

lemma apply_rules_grows:
  assumes "set ps \<subseteq> set patterns"
  shows "\<exists>out. apply_rules ps t = Inr out \<and> length t \<le> length out
           \<and> (out = t \<longleftrightarrow> (\<forall>p\<in>set ps. re_search p t = None))"
  using assms
proof (induction ps arbitrary: t)
  case Nil
  then show ?case by simp
next
  case (Cons p ps)
  then have p: "p \<in> set patterns" and ps: "set ps \<subseteq> set patterns" by auto
  from re_sub_grows[OF p, of t] obtain t1 where
    1: "re_sub p replacement t = Inr t1" "length t \<le> length t1"
    "re_search p t \<noteq> None \<longrightarrow> length t < length t1" by blast
  from Cons.IH[OF ps, of t1] obtain out where
    2: "apply_rules ps t1 = Inr out" "length t1 \<le> length out"
    "out = t1 \<longleftrightarrow> (\<forall>p\<in>set ps. re_search p t1 = None)" by blast
  have a: "apply_rules (p # ps) t = Inr out" using 1(1) 2(1) by simp
  have l: "length t \<le> length out" using 1(2) 2(2) by simp
  have "out = t \<longleftrightarrow> (\<forall>q\<in>set (p # ps). re_search q t = None)"
  proof (cases "re_search p t")
    case None
    then have "t1 = t" using re_sub_no_match[of p t replacement] 1(1) by simp
    then show ?thesis using 2(3) None by simp
  next
    case (Some m)
    then have "length t < length out" using 1(3) 2(2) by simp
    then show ?thesis using Some by auto
  qed
  then show ?case using a l by blast
qed








lemma re_sub_total:
  "p \<in> set patterns \<Longrightarrow> \<exists>out. re_sub p replacement t = Inr out"
  using re_sub_grows by blast

lemma re_sub_at_first_match:
  assumes "p \<in> set patterns"
    and "\<forall>i<length pre. re_match p (drop i (pre @ whole m @ rest)) = None"
    and "re_match p (whole m @ rest) = Some m"
  shows "\<exists>new out. replacement m = Inr new \<and> re_sub p replacement rest = Inr out
           \<and> re_sub p replacement (pre @ whole m @ rest) = Inr (pre @ new @ out)"
proof -
  from replacement_on_match[OF assms(1,3)] obtain new where n: "replacement m = Inr new" by blast
  from re_sub_total[OF assms(1), of rest] obtain out where
    o: "re_sub p replacement rest = Inr out" by blast
  have w: "whole m \<noteq> []" by (rule pattern_match_nonempty[OF assms(1,3)])
  have "sub_scan p replacement 0 (pre @ whole m @ rest)
          = emit (Inr pre) (sub_scan p replacement 0 (whole m @ rest))"
    by (rule sub_scan_no_match[OF assms(2)])
  also have "sub_scan p replacement 0 (whole m @ rest)
          = emit (replacement m) (sub_scan p replacement 0 rest)"
    by (rule sub_scan_match[OF assms(3) refl w])
  finally have "re_sub p replacement (pre @ whole m @ rest) = Inr (pre @ new @ out)"
    using n o by (simp add: re_sub_def emit_simps)
  then show ?thesis using n o by blast
qed

lemma decl_body_ends: "a \<in> lang (decl_body ty) \<Longrightarrow> \<exists>a'. a = a' @ '';''"
proof -
  assume "a \<in> lang (decl_body ty)"
  then have "a \<noteq> [] \<and> last a = CHR '';''" by (auto simp: decl_body_def)
  then have "a = butlast a @ '';''" by (metis append_butlast_last_id)
  then show ?thesis by blast
qed

lemma pattern_match_ends:
  assumes "p \<in> set patterns" and "re_match p s = Some m"
  shows "\<exists>w'. whole m = w' @ '';''"
proof -
  from patterns_decl[OF assms(1)] obtain ty where p: "p = decl_pattern ty"
    and ty: "ty \<in> set [ty_ember_value, ty_const_char, ty_ember_ptr, ty_uint32, ty_bool, ty_package, ty_int]"
    by blast
  from re_match_Some[OF assms(2)] obtain k g where
    r: "(k, g) \<in> set (run (decl_pattern ty) s)" and m: "m = \<lparr>whole = take k s, groups = g\<rparr>"
    unfolding p by blast
  from decl_match_shape[OF r type_token_group_free[OF ty]] obtain i a where
    s: "take k s = i @ a" "a \<in> lang (decl_body ty)" by blast
  from decl_body_ends[OF s(2)] obtain a' where "a = a' @ '';''" by blast
  then have "whole m = (i @ a') @ '';''" using m s(1) by simp
  then show ?thesis by blast
qed

lemma re_sub_step:
  assumes "p \<in> set patterns"
  shows "(t = [] \<and> re_sub p replacement t = Inr [])
       \<or> (\<exists>c cs out'. t = c # cs \<and> re_sub p replacement cs = Inr out'
             \<and> re_sub p replacement t = Inr (c # out'))
       \<or> (\<exists>w' rest ins out'. t = w' @ '';'' @ rest \<and> re_sub p replacement rest = Inr out'
             \<and> re_sub p replacement t = Inr (w' @ '';'' @ ins @ out'))"
proof (cases "re_match p t")
  case None
  show ?thesis
  proof (cases t)
    case Nil
    then show ?thesis using None by (simp add: re_sub_def)
  next
    case (Cons c cs)
    from re_sub_total[OF assms, of cs] obtain out' where o: "re_sub p replacement cs = Inr out'"
      by blast
    then have "re_sub p replacement t = Inr (c # out')"
      using None unfolding Cons by (simp add: re_sub_def emit_simps)
    then show ?thesis using Cons o by blast
  qed
next
  case (Some m)
  define rest where "rest = drop (length (whole m)) t"
  have t: "t = whole m @ rest" unfolding rest_def by (rule re_match_prefix[OF Some])
  from pattern_match_ends[OF assms Some] obtain w' where w: "whole m = w' @ '';''" by blast
  from replacement_on_match[OF assms Some] obtain i a v where
    r: "whole m = i @ a" "replacement m = Inr (i @ a @ ''\<newline>'' @ i @ ''UNUSED('' @ v @ '');'')"
    by blast
  from re_sub_total[OF assms, of rest] obtain out' where o: "re_sub p replacement rest = Inr out'"
    by blast
  have S: "re_match p (whole m @ rest) = Some m" by (simp only: t[symmetric] Some)
  have ne: "whole m \<noteq> []" by (rule pattern_match_nonempty[OF assms Some])
  have "sub_scan p replacement 0 (whole m @ rest)
          = emit (replacement m) (sub_scan p replacement 0 rest)"
    by (rule sub_scan_match[OF S refl ne])
  then have "re_sub p replacement (whole m @ rest)
          = Inr (whole m @ (''\<newline>'' @ i @ ''UNUSED('' @ v @ '');'') @ out')"
    using o unfolding re_sub_def r(2) by (simp add: emit_simps r(1))
  then have "re_sub p replacement t
          = Inr (whole m @ (''\<newline>'' @ i @ ''UNUSED('' @ v @ '');'') @ out')"
    by (simp only: t[symmetric])
  then have "re_sub p replacement t = Inr (w' @ '';'' @ (''\<newline>'' @ i @ ''UNUSED('' @ v @ '');'') @ out')"
    unfolding w by simp
  moreover have "t = w' @ '';'' @ rest" using t w by simp
  ultimately show ?thesis using o by blast
qed

lemma re_sub_keeps_prefix:
  assumes "p \<in> set patterns"
  shows "prefix y t \<Longrightarrow> CHR '';'' \<notin> set y \<Longrightarrow> re_sub p replacement t = Inr out
           \<Longrightarrow> prefix y out"
proof (induction t arbitrary: y out rule: length_induct)
  case (1 t)
  from re_sub_step[OF assms(1), of t] consider
    (nil) "t = []" "re_sub p replacement t = Inr []"
  | (copy) c cs out' where "t = c # cs" "re_sub p replacement cs = Inr out'"
      "re_sub p replacement t = Inr (c # out')"
  | (hit) w' rest ins out' where "t = w' @ '';'' @ rest" "re_sub p replacement rest = Inr out'"
      "re_sub p replacement t = Inr (w' @ '';'' @ ins @ out')"
    by blast
  then show ?case
  proof cases
    case nil
    then show ?thesis using "1.prems" by simp
  next
    case copy
    have out: "out = c # out'" using copy(3) "1.prems"(3) by simp
    show ?thesis
    proof (cases y)
      case Nil
      then show ?thesis by simp
    next
      case (Cons a y')
      then have a: "a = c" "prefix y' cs" using "1.prems"(1) copy(1) by auto
      have ny: "CHR '';'' \<notin> set y'" using "1.prems"(2) Cons by simp
      have "length cs < length t" using copy(1) by simp
      from 1(1)[rule_format, OF this a(2) ny copy(2)]
      have "prefix y' out'" .
      then show ?thesis using out Cons a(1) by simp
    qed
  next
    case hit
    have out: "out = w' @ '';'' @ ins @ out'" using hit(3) "1.prems"(3) by simp
    have "prefix y (w' @ '';'' @ rest)" using "1.prems"(1) hit(1) by simp
    then have "prefix y w' \<or> (\<exists>z. y = w' @ z \<and> prefix z ('';'' @ rest))"
      by (auto simp: prefix_append)
    then have "prefix y w'"
    proof
      assume "prefix y w'"
      then show ?thesis .
    next
      assume "\<exists>z. y = w' @ z \<and> prefix z ('';'' @ rest)"
      then obtain z where z: "y = w' @ z" "prefix z ('';'' @ rest)" by blast
      have "CHR '';'' \<notin> set z" using "1.prems"(2) z(1) by simp
      then have "z = []" using z(2) by (cases z) auto
      then show ?thesis using z(1) by simp
    qed
    then show ?thesis unfolding out by (simp add: prefix_prefix)
  qed
qed

lemma contains_prefix: "prefix x s \<Longrightarrow> contains s x"
  by (cases s) auto

lemma contains_Cons: "contains s x \<Longrightarrow> contains (c # s) x"
  by simp

lemma contains_append: "contains s x \<Longrightarrow> contains (u @ s) x"
  by (induction u) auto

lemma append_eq_split:
  "u @ r = a @ b \<Longrightarrow> length a \<le> length u \<Longrightarrow> \<exists>u'. u = a @ u' \<and> b = u' @ r"
proof (induction a arbitrary: u)
  case Nil
  then show ?case by simp
next
  case (Cons x a)
  then obtain y us where u: "u = y # us" by (cases u) auto
  then have "us @ r = a @ b" "length a \<le> length us" "y = x" using Cons.prems by auto
  from Cons.IH[OF this(1,2)] obtain u' where "us = a @ u'" "b = u' @ r" by blast
  then show ?case using u \<open>y = x\<close> by simp
qed

lemma re_sub_keeps:
  assumes "p \<in> set patterns"
  shows "contains t x \<Longrightarrow> CHR '';'' \<notin> set x \<Longrightarrow> re_sub p replacement t = Inr out
           \<Longrightarrow> contains out x"
proof (induction t arbitrary: out rule: length_induct)
  case (1 t)
  from re_sub_step[OF assms(1), of t] consider
    (nil) "t = []" "re_sub p replacement t = Inr []"
  | (copy) c cs out' where "t = c # cs" "re_sub p replacement cs = Inr out'"
      "re_sub p replacement t = Inr (c # out')"
  | (hit) w' rest ins out' where "t = w' @ '';'' @ rest" "re_sub p replacement rest = Inr out'"
      "re_sub p replacement t = Inr (w' @ '';'' @ ins @ out')"
    by blast
  then show ?case
  proof cases
    case nil
    then show ?thesis using "1.prems" by simp
  next
    case copy
    have out: "out = c # out'" using copy(3) "1.prems"(3) by simp
    from "1.prems"(1) copy(1) consider "prefix x t" | "contains cs x" by auto
    then show ?thesis
    proof cases
      case 1
      have "prefix x out"
        by (rule re_sub_keeps_prefix[OF assms 1 "1.prems"(2,3)])
      then show ?thesis by (rule contains_prefix)
    next
      case 2
      have "length cs < length t" using copy(1) by simp
      from "1.IH"[rule_format, OF this 2 "1.prems"(2) copy(2)]
      have "contains out' x" .
      then show ?thesis unfolding out by simp
    qed
  next
    case hit
    have out: "out = w' @ '';'' @ ins @ out'" using hit(3) "1.prems"(3) by simp
    from "1.prems"(1) obtain u v where uv: "t = u @ x @ v" unfolding contains_iff by blast
    then have e: "u @ x @ v = w' @ '';'' @ rest" using hit(1) by simp
    show ?thesis
    proof (cases "length (w' @ '';'') \<le> length u")
      case True
      from e have "u @ (x @ v) = (w' @ '';'') @ rest" by simp
      from append_eq_split[OF this True] obtain u' where "rest = u' @ x @ v" by blast
      then have c: "contains rest x" unfolding contains_iff by blast
      have "length rest < length t" using hit(1) by simp
      from "1.IH"[rule_format, OF this c "1.prems"(2) hit(2)]
      have "contains out' x" .
      then have "contains ((w' @ '';'' @ ins) @ out') x" by (rule contains_append)
      then show ?thesis unfolding out by simp
    next
      case False
      then have lu: "length u \<le> length w'" by simp
      from e have "w' @ ('';'' @ rest) = u @ (x @ v)" by simp
      from append_eq_split[OF this lu] obtain z where z: "w' = u @ z" "x @ v = z @ '';'' @ rest"
        by blast
      have "prefix x z"
      proof (cases "length x \<le> length z")
        case True
        from z(2) have "z @ ('';'' @ rest) = x @ v" by simp
        from append_eq_split[OF this True] show ?thesis by (auto simp: prefix_def)
      next
        case False
        then have "length z \<le> length x" by simp
        from append_eq_split[OF z(2) this] obtain q where q: "x = z @ q" "'';'' @ rest = q @ v"
          by blast
        have "q \<noteq> []" using False q(1) by auto
        then have "CHR '';'' \<in> set q" using q(2) by (cases q) auto
        then show ?thesis using "1.prems"(2) q(1) by simp
      qed
      then obtain z' where "z = x @ z'" by (auto simp: prefix_def)
      then have "out = u @ x @ (z' @ '';'' @ ins @ out')" unfolding out z(1) by simp
      then show ?thesis unfolding contains_iff by blast
    qed
  qed
qed

lemma apply_rules_keeps:
  assumes "set ps \<subseteq> set patterns" and "CHR '';'' \<notin> set x"
  shows "contains t x \<Longrightarrow> apply_rules ps t = Inr out \<Longrightarrow> contains out x"
  using assms(1)
proof (induction ps arbitrary: t)
  case Nil
  then show ?case by simp
next
  case (Cons p ps)
  then have p: "p \<in> set patterns" and ps: "set ps \<subseteq> set patterns" by auto
  from re_sub_total[OF p, of t] obtain t1 where t1: "re_sub p replacement t = Inr t1" by blast
  have c1: "contains t1 x" by (rule re_sub_keeps[OF p Cons.prems(1) assms(2) t1])
  have "apply_rules ps t1 = Inr out" using Cons.prems(2) t1 by simp
  from Cons.IH[OF c1 this ps] show ?case .
qed

lemma fix_text_total: "\<exists>out. fix_text content = Inr out"
  using apply_rules_grows[of patterns "ensure_marker_present content"]
  by (auto simp: fix_text_def)

lemma macro_string_no_semicolon: "CHR '';'' \<notin> set macro_string"
  by (simp add: macro_string_def)










section \<open>The UNUSED macro is present after a run\<close>

text \<open>
  Claim C3, as amended. In a text without \<^verbatim>\<open>#define UNUSED(x)\<close> the step replaces every
  occurrence of the include line: behind the first occurrence it puts the macro block, and
  it treats the text behind that occurrence in the same way, so that every later
  occurrence gets a block of its own. When the include line occurs exactly once, the block
  is put in exactly once, right behind it, and the rest of the text is unchanged.
\<close>

theorem macro_after_every_anchor:
  assumes "\<not> contains (pre @ anchor @ rest) macro_string" and "\<not> contains pre anchor"
  shows "ensure_marker_present (pre @ anchor @ rest)
           = pre @ anchor @ macro_block @ str_replace rest anchor (anchor @ macro_block)
         \<and> (\<not> contains rest anchor \<longrightarrow>
              ensure_marker_present (pre @ anchor @ rest) = pre @ anchor @ macro_block @ rest)"
proof -
  have "ensure_marker_present (pre @ anchor @ rest)
          = replace_scan anchor (anchor @ macro_block) 0 (pre @ anchor @ rest)"
    using assms(1) by (simp add: ensure_marker_present_def str_replace_def anchor_nonempty)
  also have "\<dots> = pre @ (anchor @ macro_block) @ replace_scan anchor (anchor @ macro_block) 0 rest"
    by (rule replace_anchor_first[OF assms(2)])
  finally have e: "ensure_marker_present (pre @ anchor @ rest)
          = pre @ anchor @ macro_block @ str_replace rest anchor (anchor @ macro_block)"
    by (simp add: str_replace_def anchor_nonempty)
  show ?thesis using e by (simp add: str_replace_def anchor_nonempty replace_scan_absent)
qed

theorem macro_after_every_anchor_witness:
  "\<not> contains (''// t\<newline>'' @ anchor @ ''\<newline>int x;'') macro_string \<and> \<not> contains ''// t\<newline>'' anchor \<and>
   \<not> contains ''\<newline>int x;'' anchor \<and>
   ensure_marker_present (''// t\<newline>'' @ anchor @ ''\<newline>int x;'')
     = ''// t\<newline>'' @ anchor @ macro_block @ ''\<newline>int x;''"
proof -
  have h1: "\<not> contains (''// t\<newline>'' @ anchor @ ''\<newline>int x;'') macro_string"
    by (simp add: anchor_def macro_string_def)
  have h2: "\<not> contains ''// t\<newline>'' anchor" by (simp add: anchor_def)
  have h3: "\<not> contains ''\<newline>int x;'' anchor" by (simp add: anchor_def)
  have "ensure_marker_present (''// t\<newline>'' @ anchor @ ''\<newline>int x;'')
     = ''// t\<newline>'' @ anchor @ macro_block @ ''\<newline>int x;''"
    using macro_after_every_anchor[OF h1 h2] h3 by blast
  then show ?thesis using h1 h2 h3 by blast
qed

text \<open>
  With two include lines the block is put behind both, not only behind the first: the
  claim C3 as the specification states it fails on this text.
\<close>

theorem second_anchor_counterexample:
  "\<not> contains (anchor @ ''\<newline>'' @ anchor) macro_string
   \<and> contains (anchor @ ''\<newline>'' @ anchor) anchor
   \<and> ensure_marker_present (anchor @ ''\<newline>'' @ anchor)
       = anchor @ macro_block @ ''\<newline>'' @ anchor @ macro_block
   \<and> ensure_marker_present (anchor @ ''\<newline>'' @ anchor)
       \<noteq> anchor @ macro_block @ ''\<newline>'' @ anchor"
  by (simp add: ensure_marker_present_def str_replace_def anchor_def macro_string_def macro_block_def)

text \<open>
  Claim C4. A text without the include line is returned unchanged by the step, which has
  no way to fail; the text written back is then the result of the rewrite rules alone.
\<close>

theorem no_anchor_no_insertion:
  "\<not> contains content anchor \<Longrightarrow>
     ensure_marker_present content = content \<and> fix_text content = apply_rules patterns content"
  by (simp add: ensure_marker_present_def fix_text_def str_replace_def anchor_nonempty
      replace_scan_absent)

theorem no_anchor_no_insertion_witness:
  "\<not> contains ''int main() {}'' anchor \<and>
     ensure_marker_present ''int main() {}'' = ''int main() {}'' \<and>
     fix_text ''int main() {}'' = apply_rules patterns ''int main() {}''"
proof -
  have h: "\<not> contains ''int main() {}'' anchor" by (simp add: anchor_def)
  show ?thesis using h no_anchor_no_insertion[OF h] by simp
qed

text \<open>
  Claim C5. A text that contains \<^verbatim>\<open>#define UNUSED(x)\<close> is returned unchanged by the step,
  and the text written back is the result of the rewrite rules alone. The rules keep the
  definition in the text, so on the text that such a run writes the step again inserts
  nothing. Applying the step to its own result never changes it either.
\<close>

theorem macro_present_no_insertion:
  "(contains content macro_string \<longrightarrow>
      ensure_marker_present content = content
      \<and> fix_text content = apply_rules patterns content
      \<and> (\<exists>out. fix_text content = Inr out \<and> contains out macro_string
            \<and> ensure_marker_present out = out))
   \<and> ensure_marker_present (ensure_marker_present content) = ensure_marker_present content"
proof -
  have idem: "ensure_marker_present (ensure_marker_present content) = ensure_marker_present content"
  proof (cases "contains content macro_string")
    case True
    then show ?thesis by (simp add: ensure_marker_present_def)
  next
    case nm: False
    show ?thesis
    proof (cases "contains content anchor")
      case True
      have "contains (ensure_marker_present content) macro_string"
        using nm marker_after_insertion[OF True]
        by (simp add: ensure_marker_present_def str_replace_def anchor_nonempty)
      then show ?thesis by (simp add: ensure_marker_present_def)
    next
      case False
      then have "ensure_marker_present content = content"
        by (simp add: ensure_marker_present_def str_replace_def anchor_nonempty replace_scan_absent)
      then show ?thesis by simp
    qed
  qed
  have rerun: "\<exists>out. fix_text content = Inr out \<and> contains out macro_string
            \<and> ensure_marker_present out = out" if c: "contains content macro_string"
  proof -
    from fix_text_total[of content] obtain out where o: "fix_text content = Inr out" by blast
    have e: "ensure_marker_present content = content" using c by (simp add: ensure_marker_present_def)
    have "apply_rules patterns content = Inr out" using o e by (simp add: fix_text_def)
    from apply_rules_keeps[OF subset_refl macro_string_no_semicolon c this]
    have k: "contains out macro_string" .
    then have "ensure_marker_present out = out" by (simp add: ensure_marker_present_def)
    then show ?thesis using o k by blast
  qed
  show ?thesis using idem rerun by (auto simp: ensure_marker_present_def fix_text_def)
qed

theorem macro_present_no_insertion_witness:
  "contains ''#define UNUSED(x) ((void)(x))'' macro_string \<and>
   ensure_marker_present ''#define UNUSED(x) ((void)(x))'' = ''#define UNUSED(x) ((void)(x))''"
proof -
  have h: "contains ''#define UNUSED(x) ((void)(x))'' macro_string" by (simp add: macro_string_def)
  then have "ensure_marker_present ''#define UNUSED(x) ((void)(x))'' = ''#define UNUSED(x) ((void)(x))''"
    using macro_present_no_insertion[of "''#define UNUSED(x) ((void)(x))''"] by blast
  then show ?thesis using h by blast
qed

section \<open>The command line and the file\<close>

text \<open>
  Claim C8. When \<^verbatim>\<open>sys.argv\<close> does not have exactly two entries (the script and one file
  name), the process prints the usage line on standard output, ends with status 1, opens
  no file and leaves the file system as it was.
\<close>

theorem wrong_argument_count:
  "length argv \<noteq> 2 \<Longrightarrow>
     main argv files = \<lparr>status = 1, stdout = [usage], uncaught = None, files_left = files,
                         files_opened = []\<rparr>"
  by (simp add: main_def)

theorem wrong_argument_count_witness:
  "length [''comprehensive_fix.py'', ''a.c'', ''b.c''] \<noteq> 2 \<and>
   main [''comprehensive_fix.py'', ''a.c'', ''b.c''] Map.empty
     = \<lparr>status = 1, stdout = [usage], uncaught = None, files_left = Map.empty, files_opened = []\<rparr>"
proof -
  have h: "length [''comprehensive_fix.py'', ''a.c'', ''b.c''] \<noteq> 2" by simp
  show ?thesis using h wrong_argument_count[OF h, of Map.empty] by simp
qed

text \<open>
  Claim C9. When reading the file fails, or when the processing of the text that was read
  fails, the exception is raised with the file system exactly as it was before the call,
  and the only file operation of the call is the opening for reading: the file is opened
  for writing only after the whole new text has been produced.
\<close>

theorem failure_leaves_file:
  "read_file files filename = Inl e
     \<or> (\<exists>content. read_file files filename = Inr content \<and> fix_text content = Inl e) \<Longrightarrow>
   files_after (fix_all_unused_variables files filename) = files
   \<and> raised (fix_all_unused_variables files filename) = Some e
   \<and> opened (fix_all_unused_variables files filename) = [Open_read filename]"
  by (auto simp: fix_all_unused_variables_def)

theorem failure_leaves_file_witness:
  "read_file [''b.c'' \<mapsto> \<lparr>readable = True, writable = True, text_of = Some '' int a = 1;''\<rparr>] ''a.c''
      = Inl FileNotFoundError
   \<and> files_after (fix_all_unused_variables
        [''b.c'' \<mapsto> \<lparr>readable = True, writable = True, text_of = Some '' int a = 1;''\<rparr>] ''a.c'')
      = [''b.c'' \<mapsto> \<lparr>readable = True, writable = True, text_of = Some '' int a = 1;''\<rparr>]"
proof -
  have h: "read_file [''b.c'' \<mapsto> \<lparr>readable = True, writable = True, text_of = Some '' int a = 1;''\<rparr>] ''a.c''
      = Inl FileNotFoundError"
    by (simp add: read_file_def)
  show ?thesis
    using h failure_leaves_file[of "[''b.c'' \<mapsto> \<lparr>readable = True, writable = True, text_of = Some '' int a = 1;''\<rparr>]" "''a.c''" FileNotFoundError]
    by simp
qed

section \<open>The replacement\<close>

text \<open>
  Claim C10. Whatever one of the seven patterns matches, at any position of any text, the
  search for the name of the variable succeeds on the second group: the match has its two
  groups, the replacement is the matched text followed by a line break, the first group
  again and \<^verbatim>\<open>UNUSED(name);\<close>, and it is never the matched text itself, so the branch
  that returns the match unchanged is not taken.
\<close>

theorem extraction_always_succeeds:
  "p \<in> set patterns \<Longrightarrow> re_match p s = Some m \<Longrightarrow>
     \<exists>indent assignment var_match var_name.
       group_of m 1 = Inr indent \<and> group_of m 2 = Inr assignment \<and> whole m = indent @ assignment
       \<and> re_search var_pattern assignment = Some var_match
       \<and> group_of var_match 1 = Inr var_name
       \<and> replacement m
           = Inr (indent @ assignment @ ''\<newline>'' @ indent @ ''UNUSED('' @ var_name @ '');'')
       \<and> replacement m \<noteq> group_of m 0"
proof -
  assume "p \<in> set patterns" and "re_match p s = Some m"
  from replacement_on_match[OF this] obtain i a vm v where
    r: "whole m = i @ a" "groups m = [i, a]" "re_search var_pattern a = Some vm" "groups vm = [v]"
    "replacement m = Inr (i @ a @ ''\<newline>'' @ i @ ''UNUSED('' @ v @ '');'')" by blast
  have "group_of m 1 = Inr i" "group_of m 2 = Inr a" using r(2) by (simp_all add: numeral_2_eq_2)
  moreover have "group_of vm 1 = Inr v" using r(4) by simp
  moreover have "replacement m \<noteq> group_of m 0" using r(1,5) by simp
  ultimately show ?thesis using r by blast
qed

theorem extraction_always_succeeds_witness:
  "decl_pattern ty_int \<in> set patterns
   \<and> re_match (decl_pattern ty_int) ''  int count = 5; //''
       = Some \<lparr>whole = ''  int count = 5;'', groups = [''  '', ''int count = 5;'']\<rparr>
   \<and> replacement \<lparr>whole = ''  int count = 5;'', groups = [''  '', ''int count = 5;'']\<rparr>
       \<noteq> group_of \<lparr>whole = ''  int count = 5;'', groups = [''  '', ''int count = 5;'']\<rparr> 0"
proof -
  have h1: "decl_pattern ty_int \<in> set patterns" by (simp add: patterns_def)
  have h2: "re_match (decl_pattern ty_int) ''  int count = 5; //''
       = Some \<lparr>whole = ''  int count = 5;'', groups = [''  '', ''int count = 5;'']\<rparr>"
    by code_simp
  have "replacement \<lparr>whole = ''  int count = 5;'', groups = [''  '', ''int count = 5;'']\<rparr>
       \<noteq> group_of \<lparr>whole = ''  int count = 5;'', groups = [''  '', ''int count = 5;'']\<rparr> 0"
    using extraction_always_succeeds[OF h1 h2] by blast
  then show ?thesis using h1 h2 by blast
qed

text \<open>
  Claim C6. For a match with two groups on whose second group the search for the name
  finds nothing, the replacement is the matched text itself, returned as a value: no
  exception is raised, and the function has no output but its result.
\<close>

theorem extraction_miss_is_identity:
  "group_of m 1 = Inr indent \<Longrightarrow> group_of m 2 = Inr assignment \<Longrightarrow>
   re_search var_pattern assignment = None \<Longrightarrow>
     replacement m = Inr (whole m) \<and> replacement m = group_of m 0"
  by (simp add: replacement_def)

theorem extraction_miss_is_identity_witness:
  "group_of \<lparr>whole = '' x = 1;'', groups = ['' '', ''x = 1;'']\<rparr> 1 = Inr '' ''
   \<and> group_of \<lparr>whole = '' x = 1;'', groups = ['' '', ''x = 1;'']\<rparr> 2 = Inr ''x = 1;''
   \<and> re_search var_pattern ''x = 1;'' = None
   \<and> replacement \<lparr>whole = '' x = 1;'', groups = ['' '', ''x = 1;'']\<rparr> = Inr '' x = 1;''"
proof -
  have h1: "group_of \<lparr>whole = '' x = 1;'', groups = ['' '', ''x = 1;'']\<rparr> 1 = Inr '' ''" by simp
  have h2: "group_of \<lparr>whole = '' x = 1;'', groups = ['' '', ''x = 1;'']\<rparr> 2 = Inr ''x = 1;''"
    by (simp add: numeral_2_eq_2)
  have h3: "re_search var_pattern ''x = 1;'' = None" by code_simp
  show ?thesis using h1 h2 h3 extraction_miss_is_identity[OF h1 h2 h3] by simp
qed

section \<open>The loop over the patterns\<close>

text \<open>
  Claim C7. The seven rules run in the order of the list, each on the text that the rule
  before it returned, and none of them fails. Within one rule the matches are those of
  the text as the rule received it: when the leftmost match of the pattern starts behind
  \<open>pre\<close>, the result is \<open>pre\<close>, the replacement of that match, and the result of the same
  rule on the text behind the match; the replacement is put into the result and is not
  scanned.
\<close>

theorem rules_in_order_on_previous_text:
  assumes "p \<in> set patterns"
    and "\<forall>i<length pre. re_match p (drop i (pre @ whole m @ rest)) = None"
    and "re_match p (whole m @ rest) = Some m"
  shows "(\<exists>t1 t2 t3 t4 t5 t6 t7.
            re_sub (decl_pattern ty_ember_value) replacement content = Inr t1
          \<and> re_sub (decl_pattern ty_const_char) replacement t1 = Inr t2
          \<and> re_sub (decl_pattern ty_ember_ptr) replacement t2 = Inr t3
          \<and> re_sub (decl_pattern ty_uint32) replacement t3 = Inr t4
          \<and> re_sub (decl_pattern ty_bool) replacement t4 = Inr t5
          \<and> re_sub (decl_pattern ty_package) replacement t5 = Inr t6
          \<and> re_sub (decl_pattern ty_int) replacement t6 = Inr t7
          \<and> apply_rules patterns content = Inr t7)
       \<and> (\<exists>new out. replacement m = Inr new \<and> re_sub p replacement rest = Inr out
            \<and> re_sub p replacement (pre @ whole m @ rest) = Inr (pre @ new @ out))"
proof -
  have in_p: "\<And>ty. ty \<in> set [ty_ember_value, ty_const_char, ty_ember_ptr, ty_uint32, ty_bool,
      ty_package, ty_int] \<Longrightarrow> decl_pattern ty \<in> set patterns"
    by (auto simp: patterns_def)
  obtain t1 where 1: "re_sub (decl_pattern ty_ember_value) replacement content = Inr t1"
    using re_sub_total[OF in_p] by (metis list.set_intros(1))
  obtain t2 where 2: "re_sub (decl_pattern ty_const_char) replacement t1 = Inr t2"
    using re_sub_total[OF in_p, of ty_const_char] by auto
  obtain t3 where 3: "re_sub (decl_pattern ty_ember_ptr) replacement t2 = Inr t3"
    using re_sub_total[OF in_p, of ty_ember_ptr] by auto
  obtain t4 where 4: "re_sub (decl_pattern ty_uint32) replacement t3 = Inr t4"
    using re_sub_total[OF in_p, of ty_uint32] by auto
  obtain t5 where 5: "re_sub (decl_pattern ty_bool) replacement t4 = Inr t5"
    using re_sub_total[OF in_p, of ty_bool] by auto
  obtain t6 where 6: "re_sub (decl_pattern ty_package) replacement t5 = Inr t6"
    using re_sub_total[OF in_p, of ty_package] by auto
  obtain t7 where 7: "re_sub (decl_pattern ty_int) replacement t6 = Inr t7"
    using re_sub_total[OF in_p, of ty_int] by auto
  have "apply_rules patterns content = Inr t7"
    by (simp add: patterns_def 1 2 3 4 5 6 7)
  then have chain: "\<exists>t1 t2 t3 t4 t5 t6 t7.
            re_sub (decl_pattern ty_ember_value) replacement content = Inr t1
          \<and> re_sub (decl_pattern ty_const_char) replacement t1 = Inr t2
          \<and> re_sub (decl_pattern ty_ember_ptr) replacement t2 = Inr t3
          \<and> re_sub (decl_pattern ty_uint32) replacement t3 = Inr t4
          \<and> re_sub (decl_pattern ty_bool) replacement t4 = Inr t5
          \<and> re_sub (decl_pattern ty_package) replacement t5 = Inr t6
          \<and> re_sub (decl_pattern ty_int) replacement t6 = Inr t7
          \<and> apply_rules patterns content = Inr t7"
    using 1 2 3 4 5 6 7 by blast
  show ?thesis using chain re_sub_at_first_match[OF assms] by blast
qed

theorem rules_in_order_on_previous_text_witness:
  "decl_pattern ty_int \<in> set patterns
   \<and> re_match (decl_pattern ty_int)
          (drop 0 (''x;'' @ whole \<lparr>whole = '' int a = 1;'', groups = ['' '', ''int a = 1;'']\<rparr>
                    @ '' int b = 2;'')) = None
   \<and> re_match (decl_pattern ty_int)
          (drop 1 (''x;'' @ whole \<lparr>whole = '' int a = 1;'', groups = ['' '', ''int a = 1;'']\<rparr>
                    @ '' int b = 2;'')) = None
   \<and> re_match (decl_pattern ty_int)
        (whole \<lparr>whole = '' int a = 1;'', groups = ['' '', ''int a = 1;'']\<rparr> @ '' int b = 2;'')
        = Some \<lparr>whole = '' int a = 1;'', groups = ['' '', ''int a = 1;'']\<rparr>
   \<and> (\<exists>new out.
         replacement \<lparr>whole = '' int a = 1;'', groups = ['' '', ''int a = 1;'']\<rparr> = Inr new
       \<and> re_sub (decl_pattern ty_int) replacement '' int b = 2;'' = Inr out
       \<and> re_sub (decl_pattern ty_int) replacement
            (''x;'' @ whole \<lparr>whole = '' int a = 1;'', groups = ['' '', ''int a = 1;'']\<rparr>
              @ '' int b = 2;'') = Inr (''x;'' @ new @ out))"
proof -
  define m where "m = \<lparr>whole = '' int a = 1;'', groups = ['' '', ''int a = 1;'']\<rparr>"
  have h1: "decl_pattern ty_int \<in> set patterns" by (simp add: patterns_def)
  have a0: "re_match (decl_pattern ty_int) (drop 0 (''x;'' @ whole m @ '' int b = 2;'')) = None"
    unfolding m_def by code_simp
  have a1: "re_match (decl_pattern ty_int) (drop 1 (''x;'' @ whole m @ '' int b = 2;'')) = None"
    unfolding m_def by code_simp
  have h2: "\<forall>i<length ''x;''. re_match (decl_pattern ty_int)
          (drop i (''x;'' @ whole m @ '' int b = 2;'')) = None"
  proof (intro allI impI)
    fix i :: nat
    assume "i < length ''x;''"
    then have "i = 0 \<or> i = 1" by auto
    then show "re_match (decl_pattern ty_int) (drop i (''x;'' @ whole m @ '' int b = 2;'')) = None"
      using a0 a1 by blast
  qed
  have h3: "re_match (decl_pattern ty_int) (whole m @ '' int b = 2;'') = Some m"
    unfolding m_def by code_simp
  from rules_in_order_on_previous_text[OF h1 h2 h3, of "''x;''"]
  have "\<exists>new out. replacement m = Inr new
       \<and> re_sub (decl_pattern ty_int) replacement '' int b = 2;'' = Inr out
       \<and> re_sub (decl_pattern ty_int) replacement (''x;'' @ whole m @ '' int b = 2;'')
           = Inr (''x;'' @ new @ out)" by blast
  then show ?thesis using h1 a0 a1 h3 unfolding m_def by blast
qed




text \<open>
  Claim C1, at the input on which the script departs from it. The first group of a pattern
  is \<^verbatim>\<open>\s+\<close>, which also takes the line break in front of the indentation; the
  replacement repeats the whole group in front of the annotation, so a declaration that is
  not on the first line of the file is followed by an empty line and only then by the
  annotation.
\<close>

theorem annotation_after_blank_line:
  "fix_text ''{\<newline>    const char* name = \"hello\";\<newline>}''
     = Inr ''{\<newline>    const char* name = \"hello\";\<newline>\<newline>    UNUSED(name);\<newline>}''"
  by code_simp

end
